theory Spec2Isabelle
  imports Main "HOL-Library.AList" "HOL-Library.Multiset"
begin

section \<open>Strings and the dictionary\<close>

text \<open>
  A Python \<^verbatim>\<open>str\<close> is a sequence of Unicode code points; \<^verbatim>\<open>len\<close> counts code points.
\<close>

type_synonym pystr = "nat list"

text \<open>
  \<^verbatim>\<open>Dictionary.normalize\<close> calls three functions that are not code of the repository:
  \<^verbatim>\<open>unidecode\<close> (package Unidecode) and the built-in \<^verbatim>\<open>str.isalpha\<close> (applied by \<^verbatim>\<open>filter\<close> to
  one character at a time) and \<^verbatim>\<open>str.lower\<close>. They are parameters of the model.
\<close>

record strlib =
  unidecode :: "pystr \<Rightarrow> pystr"
  isalpha :: "nat \<Rightarrow> bool"
  lower :: "pystr \<Rightarrow> pystr"

definition is_ascii :: "pystr \<Rightarrow> bool" where
  "is_ascii w = list_all (\<lambda>c. c < 128) w"

definition ascii_isalpha :: "nat \<Rightarrow> bool" where
  "ascii_isalpha c = ((65 \<le> c \<and> c \<le> 90) \<or> (97 \<le> c \<and> c \<le> 122))"

definition ascii_lower :: "nat \<Rightarrow> nat" where
  "ascii_lower c = (if 65 \<le> c \<and> c \<le> 90 then c + 32 else c)"

text \<open>
  What the library functions are documented to do: \<^verbatim>\<open>unidecode\<close> returns ASCII text and
  returns ASCII text unchanged; on ASCII, \<^verbatim>\<open>str.isalpha\<close> holds of the letters A-Z and a-z and
  \<^verbatim>\<open>str.lower\<close> maps A-Z to a-z, character by character.
\<close>

definition strlib_contract :: "strlib \<Rightarrow> bool" where
  "strlib_contract L =
     ((\<forall>w. is_ascii (unidecode L w))
      \<and> (\<forall>w. is_ascii w \<longrightarrow> unidecode L w = w)
      \<and> (\<forall>c. c < 128 \<longrightarrow> isalpha L c = ascii_isalpha c)
      \<and> (\<forall>w. is_ascii w \<longrightarrow> lower L w = map ascii_lower w))"

text \<open>
  \<^verbatim>\<open>class Dictionary\<close>: \<^verbatim>\<open>self.dictionary\<close> is a set of words, \<^verbatim>\<open>self.choices\<close> a list.
\<close>

record Dictionary =
  dictionary :: "pystr set"
  choices :: "pystr list"

text \<open>\<^verbatim>\<open>return word in self.dictionary\<close>\<close>

definition contains :: "Dictionary \<Rightarrow> pystr \<Rightarrow> bool" where
  "contains d word = (word \<in> dictionary d)"

text \<open>\<^verbatim>\<open>return ''.join(filter(str.isalpha, unidecode(word))).lower()\<close>\<close>

definition normalize :: "strlib \<Rightarrow> pystr \<Rightarrow> pystr" where
  "normalize L word = lower L (filter (isalpha L) (unidecode L word))"

text \<open>
  \<^verbatim>\<open>Dictionary.__init__\<close>: both files are read line by line, every line is normalized, and
  the choices are added to the dictionary. The lines of the two files are the arguments.
\<close>

definition Dictionary_init :: "strlib \<Rightarrow> pystr list \<Rightarrow> pystr list \<Rightarrow> Dictionary" where
  "Dictionary_init L dictionary_lines choices_lines =
     \<lparr>dictionary = set (map (normalize L) dictionary_lines) \<union> set (map (normalize L) choices_lines),
      choices = map (normalize L) choices_lines\<rparr>"

section \<open>Scoring a guess: \<open>Answer.check\<close>\<close>

text \<open>\<^verbatim>\<open>class LetterType(Enum)\<close> with members FOUND, EXIST and WRONG.\<close>

datatype LetterType = FOUND | EXIST | WRONG

text \<open>
  \<^verbatim>\<open>Counter(hidden_word)\<close>: a dictionary from letters to their number of occurrences, where a
  key that is absent reads as 0 and \<^verbatim>\<open>counts[x] -= 1\<close> stores the decremented value. It is
  modelled as a total function into \<open>int\<close>.
\<close>

definition Counter :: "'a list \<Rightarrow> 'a \<Rightarrow> int" where
  "Counter xs = (\<lambda>x. int (count_list xs x))"

text \<open>
  First loop of \<^verbatim>\<open>check\<close>:
  \<^verbatim>\<open>for x, y in zip(word, hidden_word): if x == y: counts[x] -= 1\<close>
\<close>

fun check_pass1 :: "('a \<times> 'a) list \<Rightarrow> ('a \<Rightarrow> int) \<Rightarrow> ('a \<Rightarrow> int)" where
  "check_pass1 [] counts = counts"
| "check_pass1 ((x, y) # ps) counts =
     check_pass1 ps (if x = y then counts(x := counts x - 1) else counts)"

text \<open>
  Second loop of \<^verbatim>\<open>check\<close>, appending to \<^verbatim>\<open>types\<close>:
  \<^verbatim>\<open>if x == y: FOUND  elif x in hidden_word and counts[x] > 0: EXIST; counts[x] -= 1  else: WRONG\<close>
\<close>

fun check_pass2 ::
  "'a list \<Rightarrow> ('a \<times> 'a) list \<Rightarrow> ('a \<Rightarrow> int) \<Rightarrow> LetterType list \<Rightarrow> LetterType list" where
  "check_pass2 hidden [] counts types = types"
| "check_pass2 hidden ((x, y) # ps) counts types =
     (if x = y then check_pass2 hidden ps counts (types @ [FOUND])
      else if x \<in> set hidden \<and> counts x > 0
        then check_pass2 hidden ps (counts(x := counts x - 1)) (types @ [EXIST])
      else check_pass2 hidden ps counts (types @ [WRONG]))"

text \<open>
  \<^verbatim>\<open>Answer.check(word, hidden_word)\<close>. Python's \<^verbatim>\<open>zip\<close> stops at the shorter argument, as
  \<^const>\<open>zip\<close> does; no path of the function raises. The function is written for any type of
  letters, so that it can be read on \<^typ>\<open>string\<close> literals as well as on \<^typ>\<open>pystr\<close>.
\<close>

definition check :: "'a list \<Rightarrow> 'a list \<Rightarrow> LetterType list" where
  "check word hidden =
     check_pass2 hidden (zip word hidden) (check_pass1 (zip word hidden) (Counter hidden)) []"

text \<open>Number of pairs of a zipped guess and hidden word that hold the letter \<open>c\<close> twice.\<close>

definition exact :: "'a \<Rightarrow> ('a \<times> 'a) list \<Rightarrow> nat" where
  "exact c ps = length (filter (\<lambda>(x, y). x = y \<and> x = c) ps)"

text \<open>Number of positions of \<open>word\<close> that hold \<open>c\<close> and are classified FOUND or EXIST.\<close>

definition credited :: "'a \<Rightarrow> 'a list \<Rightarrow> LetterType list \<Rightarrow> nat" where
  "credited c word types =
     length (filter (\<lambda>(x, t). x = c \<and> (t = FOUND \<or> t = EXIST)) (zip word types))"

section \<open>Players\<close>

text \<open>\<^verbatim>\<open>class Answer\<close>: the guessed word and its classification.\<close>

record Answer =
  answer_letters :: pystr
  answer_types :: "LetterType list"

definition Answer_init :: "pystr \<Rightarrow> pystr \<Rightarrow> Answer" where
  "Answer_init word hidden = \<lparr>answer_letters = word, answer_types = check word hidden\<rparr>"

text \<open>
  \<^verbatim>\<open>return (x if y == LetterType.FOUND else None for x, y in zip(self.letters, self.types))\<close>
\<close>

definition get_letters_found :: "Answer \<Rightarrow> nat option list" where
  "get_letters_found a =
     map (\<lambda>(x, y). if y = FOUND then Some x else None) (zip (answer_letters a) (answer_types a))"

text \<open>
  \<^verbatim>\<open>class Player\<close>. The field \<open>mention\<close> (\<^verbatim>\<open>user.mention\<close>, a text naming the user) is kept as
  the user itself.
\<close>

record 'u Player =
  mention :: 'u
  rank :: int
  left :: bool
  letters :: "nat option list"
  answers :: "Answer list"

text \<open>
  \<^verbatim>\<open>Player.__init__\<close>: rank -1, not left, the first letter of the hidden word revealed:
  \<^verbatim>\<open>self.letters = [x if i == 0 else None for i, x in enumerate(hidden_word)]\<close>
\<close>

definition Player_init :: "'u \<Rightarrow> pystr \<Rightarrow> 'u Player" where
  "Player_init user hidden =
     \<lparr>mention = user, rank = - 1, left = False,
      letters = map (\<lambda>(i, x). if i = 0 then Some x else None) (enumerate 0 hidden),
      answers = []\<rparr>"

text \<open>\<^verbatim>\<open>return None not in self.letters\<close>\<close>

definition Player_found :: "'u Player \<Rightarrow> bool" where
  "Player_found p = (None \<notin> set (letters p))"

text \<open>\<^verbatim>\<open>return self.found() or self.left\<close>\<close>

definition Player_over :: "'u Player \<Rightarrow> bool" where
  "Player_over p = (Player_found p \<or> left p)"

text \<open>\<^verbatim>\<open>return len(self.answers) > 0\<close>\<close>

definition Player_answered :: "'u Player \<Rightarrow> bool" where
  "Player_answered p = (length (answers p) > 0)"

text \<open>
  \<^verbatim>\<open>Player.add_answer\<close>:
  \<^verbatim>\<open>self.letters = [x or y for x, y in zip(self.letters, answer.get_letters_found())]\<close>
  where a letter (a string of one character) is true and \<^verbatim>\<open>None\<close> is false; then the answer
  is appended.
\<close>

definition Player_add_answer :: "'u Player \<Rightarrow> pystr \<Rightarrow> pystr \<Rightarrow> 'u Player" where
  "Player_add_answer p word hidden =
     (let answer = Answer_init word hidden in
      p\<lparr>letters := map (\<lambda>(x, y). case x of Some a \<Rightarrow> Some a | None \<Rightarrow> y)
                      (zip (letters p) (get_letters_found answer)),
        answers := answers p @ [answer]\<rparr>)"

section \<open>The game\<close>

text \<open>
  \<^verbatim>\<open>class Game\<close>. \<^verbatim>\<open>self.players\<close> is a dictionary from users to players; a Python dictionary
  keeps its keys in insertion order, which \<^verbatim>\<open>get_sorted_players\<close> observes, so it is an
  association list: \<^const>\<open>map_of\<close> looks a user up and \<^const>\<open>AList.update\<close> stores a player
  (in place for a known user, at the end for a new one).
\<close>

record 'u Game =
  game_dictionary :: Dictionary
  hidden_word :: pystr
  players :: "('u \<times> 'u Player) list"
  next_rank :: int

text \<open>
  \<^verbatim>\<open>Game.__init__\<close>. The hidden word is drawn by \<^verbatim>\<open>dictionary.choice()\<close>, that is
  \<^verbatim>\<open>random.choice(self.choices)\<close>; the word drawn is the argument \<open>hidden\<close>.
  \<^verbatim>\<open>self.players = { user : Player(user, self.hidden_word) for user in users }\<close>
\<close>

definition Game_init :: "Dictionary \<Rightarrow> pystr \<Rightarrow> 'u list \<Rightarrow> 'u Game" where
  "Game_init d hidden users =
     \<lparr>game_dictionary = d, hidden_word = hidden,
      players = fold (\<lambda>user ps. AList.update user (Player_init user hidden) ps) users [],
      next_rank = 1\<rparr>"

text \<open>\<^verbatim>\<open>return self.players[user]\<close>, which raises KeyError for an unknown user.\<close>

definition get_player :: "'u Game \<Rightarrow> 'u \<Rightarrow> 'u Player option" where
  "get_player g user = map_of (players g) user"

text \<open>
  \<^verbatim>\<open>return sorted(self.players.values(),
    key=lambda player: player.rank if player.rank > 0 else self.next_rank)\<close>.
  Python's \<^verbatim>\<open>sorted\<close> is stable, as \<^const>\<open>sort_key\<close> is.
\<close>

definition get_sorted_players :: "'u Game \<Rightarrow> 'u Player list" where
  "get_sorted_players g =
     sort_key (\<lambda>player. if rank player > 0 then rank player else next_rank g)
       (map snd (players g))"

text \<open>\<^verbatim>\<open>return all(player.over() for player in self.players.values())\<close>\<close>

definition Game_over :: "'u Game \<Rightarrow> bool" where
  "Game_over g = list_all Player_over (map snd (players g))"

text \<open>\<^verbatim>\<open>return any(player.answered() for player in self.players.values())\<close>\<close>

definition Game_answered :: "'u Game \<Rightarrow> bool" where
  "Game_answered g = list_ex Player_answered (map snd (players g))"

text \<open>
  \<^verbatim>\<open>Game.add_player\<close>: \<^verbatim>\<open>if user in self.players: return False\<close>, else a new player is stored.
  Each operation returns its result and the game after it.
\<close>

definition add_player :: "'u Game \<Rightarrow> 'u \<Rightarrow> bool \<times> 'u Game" where
  "add_player g user =
     (case map_of (players g) user of
        Some player \<Rightarrow> (False, g)
      | None \<Rightarrow>
          (True, g\<lparr>players := AList.update user (Player_init user (hidden_word g)) (players g)\<rparr>))"

text \<open>
  \<^verbatim>\<open>Game.remove_player\<close>:
  \<^verbatim>\<open>if user not in self.players or self.players[user].over(): return False\<close>, else
  \<^verbatim>\<open>self.players[user].left = True\<close>.
\<close>

definition remove_player :: "'u Game \<Rightarrow> 'u \<Rightarrow> bool \<times> 'u Game" where
  "remove_player g user =
     (case map_of (players g) user of
        None \<Rightarrow> (False, g)
      | Some player \<Rightarrow>
          if Player_over player then (False, g)
          else (True, g\<lparr>players := AList.update user (player\<lparr>left := True\<rparr>) (players g)\<rparr>))"

text \<open>
  The three messages that \<^verbatim>\<open>Game.add_answer\<close> returns with a rejection: the proposed word is
  too short, too long, or not in the dictionary.
\<close>

datatype reason = TooShort | TooLong | NotInDictionary

text \<open>
  \<^verbatim>\<open>Game.add_answer\<close>, in the order of the source: unknown user, player over, normalization,
  too short, too long, not in the dictionary; then \<^verbatim>\<open>player.add_answer\<close>, and
  \<^verbatim>\<open>if player.found(): player.rank = self.next_rank; self.next_rank += 1\<close>.
\<close>

definition add_answer ::
  "strlib \<Rightarrow> 'u Game \<Rightarrow> 'u \<Rightarrow> pystr \<Rightarrow> (bool \<times> reason option) \<times> 'u Game" where
  "add_answer L g user word =
     (case map_of (players g) user of
        None \<Rightarrow> ((False, None), g)
      | Some player \<Rightarrow>
          if Player_over player then ((False, None), g)
          else
            let word' = normalize L word in
            if length word' < length (hidden_word g) then ((False, Some TooShort), g)
            else if length word' > length (hidden_word g) then ((False, Some TooLong), g)
            else if \<not> contains (game_dictionary g) word' then ((False, Some NotInDictionary), g)
            else
              let player' = Player_add_answer player word' (hidden_word g);
                  g' = g\<lparr>players := AList.update user player' (players g)\<rparr>
              in
                if Player_found player'
                then ((True, None),
                      g'\<lparr>players := AList.update user (player'\<lparr>rank := next_rank g'\<rparr>) (players g'),
                         next_rank := next_rank g' + 1\<rparr>)
                else ((True, None), g'))"

text \<open>Sequences of operations on one game.\<close>

datatype 'u event = Join 'u | Leave 'u | Guess 'u pystr

fun step :: "strlib \<Rightarrow> 'u Game \<Rightarrow> 'u event \<Rightarrow> 'u Game" where
  "step L g (Join user) = snd (add_player g user)"
| "step L g (Leave user) = snd (remove_player g user)"
| "step L g (Guess user word) = snd (add_answer L g user word)"

fun run :: "strlib \<Rightarrow> 'u Game \<Rightarrow> 'u event list \<Rightarrow> 'u Game" where
  "run L g [] = g"
| "run L g (ev # evs) = run L (step L g ev) evs"

text \<open>
  The invariant of the ranks: users are stored once; a rank other than -1 lies between 1 and
  the counter and belongs to a player who has found the word and has not left; no two users
  hold the same rank; every rank below the counter is held.
\<close>

definition game_inv :: "'u Game \<Rightarrow> bool" where
  "game_inv g =
     (distinct (map fst (players g)) \<and> 1 \<le> next_rank g
      \<and> (\<forall>u p. map_of (players g) u = Some p \<longrightarrow>
            rank p = - 1 \<or> (1 \<le> rank p \<and> rank p < next_rank g \<and> Player_found p \<and> \<not> left p))
      \<and> (\<forall>u v p q. map_of (players g) u = Some p \<longrightarrow> map_of (players g) v = Some q \<longrightarrow>
            rank p = rank q \<longrightarrow> rank p \<noteq> - 1 \<longrightarrow> u = v)
      \<and> (\<forall>r. 1 \<le> r \<longrightarrow> r < next_rank g \<longrightarrow>
            (\<exists>u p. map_of (players g) u = Some p \<and> rank p = r)))"

text \<open>The rank of a user, when the user is in the game.\<close>

definition rank_of :: "'u Game \<Rightarrow> 'u \<Rightarrow> int option" where
  "rank_of g user = map_option rank (map_of (players g) user)"

text \<open>
  The ranks set by one operation: the new rank of every player whose rank is not what it
  was before. \<open>ranks_handed_out\<close> lists them along a sequence of operations.
\<close>

definition rank_change :: "('u \<Rightarrow> 'u Player option) \<Rightarrow> 'u \<times> 'u Player \<Rightarrow> int list" where
  "rank_change m = (\<lambda>(user, p').
     case m user of None \<Rightarrow> [] | Some p \<Rightarrow> if rank p' = rank p then [] else [rank p'])"

definition ranks_set :: "'u Game \<Rightarrow> 'u Game \<Rightarrow> int list" where
  "ranks_set g g' = concat (map (rank_change (map_of (players g))) (players g'))"

fun ranks_handed_out :: "strlib \<Rightarrow> 'u Game \<Rightarrow> 'u event list \<Rightarrow> int list" where
  "ranks_handed_out L g [] = []"
| "ranks_handed_out L g (ev # evs) =
     ranks_set g (step L g ev) @ ranks_handed_out L (step L g ev) evs"

text \<open>The user is in the game, has left, and holds no rank.\<close>

definition left_unranked :: "'u Game \<Rightarrow> 'u \<Rightarrow> bool" where
  "left_unranked g user = (case map_of (players g) user of
       None \<Rightarrow> False | Some p \<Rightarrow> left p \<and> rank p = - 1)"

section \<open>Statistics and their files\<close>

text \<open>The exceptions of \<^verbatim>\<open>load\<close>: \<^verbatim>\<open>json.loads\<close> and \<^verbatim>\<open>int\<close> raise on text they cannot read.\<close>

datatype error = JSONDecodeError | ValueError

text \<open>
  A \<^verbatim>\<open>Counter\<close> that is saved and loaded is a dictionary from keys to counts, in insertion
  order.
\<close>

type_synonym 'k counter = "('k \<times> int) list"





text \<open>
  \<^verbatim>\<open>int\<close> of a text: surrounding white space is dropped, a sign may come first, and decimal
  digits follow; anything else raises ValueError. Python also accepts underscores between
  digits, other white space and digits beyond ASCII; these are rejected here.
\<close>

definition isspace :: "nat \<Rightarrow> bool" where
  "isspace c = (c = 32 \<or> (9 \<le> c \<and> c \<le> 13))"

definition strip :: "pystr \<Rightarrow> pystr" where
  "strip s = rev (dropWhile isspace (rev (dropWhile isspace s)))"

definition isdigit :: "nat \<Rightarrow> bool" where
  "isdigit c = (48 \<le> c \<and> c \<le> 57)"

definition nat_of_digits :: "pystr \<Rightarrow> error + nat" where
  "nat_of_digits ds =
     (if ds \<noteq> [] \<and> list_all isdigit ds
      then Inr (foldl (\<lambda>acc d. 10 * acc + (d - 48)) 0 ds)
      else Inl ValueError)"

definition int_of_str :: "pystr \<Rightarrow> error + int" where
  "int_of_str s =
     (case strip s of
        [] \<Rightarrow> Inl ValueError
      | c # cs \<Rightarrow>
          if c = 45 then map_sum id (\<lambda>n. - int n) (nat_of_digits cs)
          else if c = 43 then map_sum id int (nat_of_digits cs)
          else map_sum id int (nat_of_digits (c # cs)))"





text \<open>\<^verbatim>\<open>class PlayerStats\<close>\<close>

record PlayerStats =
  ranks :: "int counter"
  words :: "pystr counter"
  num_words_when_found :: int









section \<open>Concrete values for the examples\<close>

text \<open>
  An instance of the string functions: \<open>unidecode\<close> keeps ASCII, writes e for e acute
  (233) and a for a grave (224), and drops every other code point.
\<close>

definition translit_lib :: strlib where
  "translit_lib =
     \<lparr>unidecode = (\<lambda>w. concat (map (\<lambda>c. if c < 128 then [c] else if c = 233 then [101]
                                        else if c = 224 then [97] else []) w)),
      isalpha = ascii_isalpha,
      lower = map ascii_lower\<rparr>"

text \<open>The words "cat" and "cab", a dictionary of the two, and a game of users 1 and 2.\<close>

definition word_cat :: pystr where
  "word_cat = [99, 97, 116]"

definition word_cab :: pystr where
  "word_cab = [99, 97, 98]"

definition dict_cat :: Dictionary where
  "dict_cat = \<lparr>dictionary = {word_cat, word_cab}, choices = [word_cat]\<rparr>"

definition game_cat :: "nat Game" where
  "game_cat = Game_init dict_cat word_cat [1, 2]"








section \<open>Properties of \<open>Answer.check\<close>\<close>

lemma check_pass2_acc:
  "check_pass2 h ps counts types = types @ check_pass2 h ps counts []"
proof (induction ps arbitrary: counts types)
  case Nil
  show ?case by simp
next
  case (Cons p ps)
  obtain x y where p: "p = (x, y)" by (cases p)
  show ?case
    unfolding p
    by (simp add: Cons.IH [of _ "types @ [FOUND]"] Cons.IH [of _ "types @ [EXIST]"]
        Cons.IH [of _ "types @ [WRONG]"] Cons.IH [of _ "[FOUND]"] Cons.IH [of _ "[EXIST]"]
        Cons.IH [of _ "[WRONG]"])
qed

lemma check_pass2_Cons:
  "check_pass2 h ((x, y) # ps) counts [] =
     (if x = y then FOUND # check_pass2 h ps counts []
      else if x \<in> set h \<and> counts x > 0
        then EXIST # check_pass2 h ps (counts(x := counts x - 1)) []
      else WRONG # check_pass2 h ps counts [])"
  using check_pass2_acc [of h ps _ "[FOUND]"] check_pass2_acc [of h ps _ "[EXIST]"]
    check_pass2_acc [of h ps _ "[WRONG]"]
  by simp

lemma length_check_pass2: "length (check_pass2 h ps counts []) = length ps"
proof (induction ps arbitrary: counts)
  case Nil
  show ?case by simp
next
  case (Cons p ps)
  obtain x y where p: "p = (x, y)" by (cases p)
  show ?case unfolding p by (simp add: check_pass2_Cons Cons.IH del: check_pass2.simps)
qed

lemma exact_simps [simp]:
  "exact c [] = 0"
  "exact c ((x, y) # ps) = (if x = y \<and> x = c then Suc (exact c ps) else exact c ps)"
  by (auto simp add: exact_def)

lemma check_pass1_val: "check_pass1 ps counts c = counts c - int (exact c ps)"
proof (induction ps arbitrary: counts)
  case Nil
  show ?case by simp
next
  case (Cons p ps)
  obtain x y where p: "p = (x, y)" by (cases p)
  show ?case unfolding p by (simp add: Cons.IH)
qed

lemma found_check_pass2:
  "length (filter (\<lambda>t. t = FOUND) (check_pass2 h ps counts [])) =
   length (filter (\<lambda>(x, y). x = y) ps)"
proof (induction ps arbitrary: counts)
  case Nil
  show ?case by simp
next
  case (Cons p ps)
  obtain x y where p: "p = (x, y)" by (cases p)
  show ?case unfolding p by (simp add: check_pass2_Cons Cons.IH del: check_pass2.simps)
qed

text \<open>
  The second loop credits a letter at most as often as it is matched exactly plus what is
  left of its counter.
\<close>

lemma credited_check_pass2:
  "credited c (map fst ps) (check_pass2 h ps counts []) \<le> exact c ps + nat (counts c)"
proof (induction ps arbitrary: counts)
  case Nil
  show ?case by (simp add: credited_def)
next
  case (Cons p ps)
  obtain x y where p: "p = (x, y)" by (cases p)
  have a: "credited c (map fst ps) (check_pass2 h ps counts []) \<le> exact c ps + nat (counts c)"
    by (rule Cons.IH)
  have b: "credited c (map fst ps) (check_pass2 h ps (counts(x := counts x - 1)) [])
      \<le> exact c ps + nat ((counts(x := counts x - 1)) c)"
    by (rule Cons.IH)
  show ?case
  proof (cases "x = y")
    case True
    then show ?thesis using a unfolding p
      by (simp add: check_pass2_Cons credited_def del: check_pass2.simps)
  next
    case False
    show ?thesis
    proof (cases "x \<in> set h \<and> counts x > 0")
      case True
      with False b show ?thesis unfolding p
        by (auto simp add: check_pass2_Cons credited_def simp del: check_pass2.simps
            split: if_splits)
    next
      case False
      with \<open>x \<noteq> y\<close> a show ?thesis unfolding p
        by (auto simp add: check_pass2_Cons credited_def simp del: check_pass2.simps)
    qed
  qed
qed

lemma exact_zip_le: "exact c (zip w h) \<le> count_list h c"
proof (induction h arbitrary: w)
  case Nil
  show ?case by simp
next
  case (Cons y h)
  show ?case
  proof (cases w)
    case Nil
    then show ?thesis by simp
  next
    case (Cons x w')
    with Cons.IH [of w'] show ?thesis by auto
  qed
qed

lemma length_check: "length (check word hidden) = min (length word) (length hidden)"
  by (simp add: check_def length_check_pass2)

text \<open>
  C1. For a guess and a hidden word of the same length L, \<open>check\<close> returns L
  classifications; the number of FOUND classifications is the number of positions where
  the guess and the hidden word agree; and for every letter \<open>c\<close>, the number of positions
  of the guess that hold \<open>c\<close> and are classified FOUND or EXIST is at most the number of
  occurrences of \<open>c\<close> in the hidden word.
\<close>

theorem check_classification:
  assumes "length word = length hidden"
  shows "length (check word hidden) = length hidden
    \<and> length (filter (\<lambda>t. t = FOUND) (check word hidden)) =
        length (filter (\<lambda>(x, y). x = y) (zip word hidden))
    \<and> (\<forall>c. length (filter (\<lambda>(x, t). x = c \<and> (t = FOUND \<or> t = EXIST))
              (zip word (check word hidden))) \<le> count_list hidden c)"
proof -
  let ?ps = "zip word hidden"
  let ?counts = "check_pass1 ?ps (Counter hidden)"
  have len: "length (check word hidden) = length hidden"
    using assms by (simp add: length_check)
  have fnd: "length (filter (\<lambda>t. t = FOUND) (check word hidden)) =
        length (filter (\<lambda>(x, y). x = y) ?ps)"
    by (simp add: check_def found_check_pass2)
  have cred: "length (filter (\<lambda>(x, t). x = c \<and> (t = FOUND \<or> t = EXIST))
              (zip word (check word hidden))) \<le> count_list hidden c" for c
  proof -
    have w: "map fst ?ps = word" using assms by simp
    have "credited c (map fst ?ps) (check_pass2 hidden ?ps ?counts [])
        \<le> exact c ?ps + nat (?counts c)"
      by (rule credited_check_pass2)
    moreover have "?counts c = int (count_list hidden c) - int (exact c ?ps)"
      by (simp add: check_pass1_val Counter_def)
    moreover have "exact c ?ps \<le> count_list hidden c" by (rule exact_zip_le)
    ultimately have "credited c word (check word hidden) \<le> count_list hidden c"
      unfolding w check_def by simp
    then show ?thesis by (simp add: credited_def)
  qed
  from len fnd cred show ?thesis by blast
qed

theorem check_classification_witness:
  "length (check ''arete'' ''arbre'') = 5
    \<and> length (filter (\<lambda>t. t = FOUND) (check ''arete'' ''arbre'')) = 3
    \<and> length (filter (\<lambda>(x, t). x = CHR ''e'' \<and> (t = FOUND \<or> t = EXIST))
              (zip ''arete'' (check ''arete'' ''arbre''))) \<le> 1"
  using check_classification [of "''arete''" "''arbre''"]
  by (simp add: check_def Counter_def)

text \<open>
  C2 fails as stated: for the hidden word "arbre" and the guess "radar", the last letter is
  not classified WRONG.
\<close>

theorem check_radar_arbre_counterexample:
  "check ''radar'' ''arbre'' \<noteq> [EXIST, EXIST, WRONG, WRONG, WRONG]"
  by (simp add: check_def Counter_def)

text \<open>
  C2, amended. For the hidden word "arbre" and the guess "radar", \<open>check\<close> returns
  EXIST, EXIST, WRONG, WRONG, EXIST: the hidden word has two letters r and none of them is
  matched exactly, so both letters r of the guess are credited.
\<close>

theorem check_radar_arbre:
  "check ''radar'' ''arbre'' = [EXIST, EXIST, WRONG, WRONG, EXIST]"
  by (simp add: check_def Counter_def)

text \<open>
  C9 fails as stated: called with a guess of two letters and a hidden word of three,
  \<open>check\<close> returns a classification of the first two positions.
\<close>

theorem check_mismatched_counterexample:
  "length ''ab'' \<noteq> length ''abc'' \<and> check ''ab'' ''abc'' = [FOUND, FOUND]"
  by (simp add: check_def Counter_def)

text \<open>
  C9, amended. \<open>check\<close> does not reject a guess and a hidden word of different lengths: it
  returns one classification for each position of the shorter of the two.
\<close>

theorem check_mismatched_length:
  "length (check word hidden) = min (length word) (length hidden)
    \<and> length (check word hidden) = length (zip word hidden)"
  by (simp add: check_def length_check_pass2)

section \<open>Normalization\<close>

lemma is_ascii_filter: "is_ascii w \<Longrightarrow> is_ascii (filter P w)"
  by (induction w) (simp_all add: is_ascii_def)

lemma normalize_letters:
  assumes c: "strlib_contract L"
  shows "normalize L w = map ascii_lower (filter ascii_isalpha (unidecode L w))"
proof -
  have a: "is_ascii (unidecode L w)" using c by (simp add: strlib_contract_def)
  have f: "filter (isalpha L) (unidecode L w) = filter ascii_isalpha (unidecode L w)"
    using a c by (intro filter_cong) (auto simp add: strlib_contract_def is_ascii_def list_all_iff)
  have "is_ascii (filter ascii_isalpha (unidecode L w))" by (rule is_ascii_filter [OF a])
  then have "lower L (filter ascii_isalpha (unidecode L w))
      = map ascii_lower (filter ascii_isalpha (unidecode L w))"
    using c by (simp add: strlib_contract_def)
  with f show ?thesis by (simp add: normalize_def)
qed

lemma lowercase_normalize:
  assumes c: "strlib_contract L"
  shows "list_all (\<lambda>c. 97 \<le> c \<and> c \<le> 122) (normalize L w)"
  unfolding normalize_letters [OF c]
  by (auto simp add: list_all_iff ascii_isalpha_def ascii_lower_def)

lemma normalize_lowercase_id:
  assumes c: "strlib_contract L" and w: "list_all (\<lambda>c. 97 \<le> c \<and> c \<le> 122) w"
  shows "normalize L w = w"
proof -
  have "is_ascii w" using w by (auto simp add: is_ascii_def list_all_iff)
  then have u: "unidecode L w = w" using c by (simp add: strlib_contract_def)
  have f: "filter ascii_isalpha w = w"
    using w by (auto simp add: list_all_iff ascii_isalpha_def intro!: filter_True)
  have m: "map ascii_lower w = w"
    using w by (auto simp add: list_all_iff ascii_lower_def intro!: map_idI)
  show ?thesis by (simp add: normalize_letters [OF c] u f m)
qed

text \<open>
  C8. \<open>normalize\<close> is a total function: none of its three steps raises, and the model has
  no error value. It is idempotent: for every text \<open>w\<close>, normalizing \<open>normalize w\<close> gives
  \<open>normalize w\<close>; a normalized word consists of the letters a-z, and every word of the
  letters a-z is left unchanged. The library functions are taken to do what they are
  documented to do (\<open>strlib_contract\<close>).
\<close>

theorem normalize_idempotent:
  assumes "strlib_contract L"
  shows "normalize L (normalize L w) = normalize L w
    \<and> list_all (\<lambda>c. 97 \<le> c \<and> c \<le> 122) (normalize L w)
    \<and> (list_all (\<lambda>c. 97 \<le> c \<and> c \<le> 122) w \<longrightarrow> normalize L w = w)"
  using normalize_lowercase_id [OF assms lowercase_normalize [OF assms]]
    lowercase_normalize [OF assms] normalize_lowercase_id [OF assms]
  by blast

lemma is_ascii_translit: "is_ascii (unidecode translit_lib w)"
  by (induction w) (simp_all add: translit_lib_def is_ascii_def)

lemma translit_ascii_id: "is_ascii w \<Longrightarrow> unidecode translit_lib w = w"
  by (induction w) (simp_all add: translit_lib_def is_ascii_def)

lemma strlib_contract_translit: "strlib_contract translit_lib"
  unfolding strlib_contract_def
  using is_ascii_translit translit_ascii_id
  by (simp add: translit_lib_def)

text \<open>
  The text of code points 67, 233, 45, 84, 32, 224 ("Ce-T a", with e acute and a grave) is
  normalized to "ceta", and normalizing again changes nothing.
\<close>

theorem normalize_idempotent_witness:
  "normalize translit_lib (normalize translit_lib [67, 233, 45, 84, 32, 224]) = [99, 101, 116, 97]
    \<and> normalize translit_lib [67, 233, 45, 84, 32, 224] = [99, 101, 116, 97]"
  using normalize_idempotent [OF strlib_contract_translit, of "[67, 233, 45, 84, 32, 224]"]
  by (simp add: normalize_def translit_lib_def ascii_isalpha_def ascii_lower_def)

section \<open>The invariant of the ranks\<close>

lemma fold_update_fresh:
  "distinct (map fst ps) \<Longrightarrow> \<forall>u p. map_of ps u = Some p \<longrightarrow> rank p = - 1 \<Longrightarrow>
   distinct (map fst (fold (\<lambda>user ps. AList.update user (Player_init user h) ps) us ps))
   \<and> (\<forall>u p. map_of (fold (\<lambda>user ps. AList.update user (Player_init user h) ps) us ps) u = Some p
         \<longrightarrow> rank p = - 1)"
proof (induction us arbitrary: ps)
  case Nil
  then show ?case by simp
next
  case (Cons a us)
  have d: "distinct (map fst (AList.update a (Player_init a h) ps))"
    using Cons.prems(1) by (simp add: distinct_update)
  have r: "\<forall>u p. map_of (AList.update a (Player_init a h) ps) u = Some p \<longrightarrow> rank p = - 1"
    using Cons.prems(2) by (auto simp add: update_conv' Player_init_def split: if_splits)
  from Cons.IH [OF d r] show ?case by simp
qed

lemma game_inv_init: "game_inv (Game_init d h users)"
  using fold_update_fresh [of "[]" h users]
  by (simp add: game_inv_def Game_init_def)

text \<open>Storing a player without a rank under a key that held no rank keeps the invariant.\<close>

lemma game_inv_store_unranked:
  assumes inv: "game_inv g"
    and old: "\<forall>p. map_of (players g) u = Some p \<longrightarrow> rank p = - 1"
    and new: "rank p' = - 1"
    and ps: "players g' = AList.update u p' (players g)"
    and nr: "next_rank g' = next_rank g"
  shows "game_inv g'"
proof -
  have m: "map_of (players g') = (map_of (players g))(u \<mapsto> p')"
    by (simp add: ps update_conv')
  have d: "distinct (map fst (players g'))"
    using inv by (simp add: ps distinct_update game_inv_def)
  have b: "rank p = - 1 \<or> (1 \<le> rank p \<and> rank p < next_rank g' \<and> Player_found p \<and> \<not> left p)"
    if "map_of (players g') v = Some p" for v p
  proof (cases "v = u")
    case True
    with that new show ?thesis by (simp add: m)
  next
    case False
    with that have "map_of (players g) v = Some p" by (simp add: m)
    with inv show ?thesis by (simp add: game_inv_def nr)
  qed
  have i: "v = w"
    if "map_of (players g') v = Some p" "map_of (players g') w = Some q"
      "rank p = rank q" "rank p \<noteq> - 1" for v w p q
  proof -
    have "v \<noteq> u" using that new by (auto simp add: m)
    moreover have "w \<noteq> u" using that new by (auto simp add: m)
    ultimately have "map_of (players g) v = Some p" "map_of (players g) w = Some q"
      using that by (simp_all add: m)
    with inv that show ?thesis unfolding game_inv_def by blast
  qed
  have c: "\<exists>v p. map_of (players g') v = Some p \<and> rank p = r"
    if "1 \<le> r" "r < next_rank g'" for r
  proof -
    from inv that obtain v p where vp: "map_of (players g) v = Some p" "rank p = r"
      unfolding game_inv_def nr by blast
    with old that have "v \<noteq> u" by auto
    with vp have "map_of (players g') v = Some p" by (simp add: m)
    with vp show ?thesis by blast
  qed
  have n: "1 \<le> next_rank g'" using inv by (simp add: game_inv_def nr)
  show ?thesis
    unfolding game_inv_def
    using d n b i c by blast
qed

text \<open>Handing the next rank to a player who held none, and who is now found, keeps it.\<close>

lemma game_inv_store_ranked:
  assumes inv: "game_inv g"
    and old: "\<forall>p. map_of (players g) u = Some p \<longrightarrow> rank p = - 1"
    and new: "rank p' = next_rank g" "Player_found p'" "\<not> left p'"
    and ps: "players g' = AList.update u p' (players g)"
    and nr: "next_rank g' = next_rank g + 1"
  shows "game_inv g'"
proof -
  have m: "map_of (players g') = (map_of (players g))(u \<mapsto> p')"
    by (simp add: ps update_conv')
  have n0: "1 \<le> next_rank g" using inv by (simp add: game_inv_def)
  have old_b: "rank p = - 1 \<or> (1 \<le> rank p \<and> rank p < next_rank g \<and> Player_found p \<and> \<not> left p)"
    if "map_of (players g) v = Some p" for v p
    using inv that unfolding game_inv_def by blast
  have d: "distinct (map fst (players g'))"
    using inv by (simp add: ps distinct_update game_inv_def)
  have b: "rank p = - 1 \<or> (1 \<le> rank p \<and> rank p < next_rank g' \<and> Player_found p \<and> \<not> left p)"
    if "map_of (players g') v = Some p" for v p
  proof (cases "v = u")
    case True
    with that new n0 show ?thesis by (simp add: m nr)
  next
    case False
    with that have "map_of (players g) v = Some p" by (simp add: m)
    with old_b [of v p] show ?thesis by (auto simp add: nr)
  qed
  have i: "v = w"
    if "map_of (players g') v = Some p" "map_of (players g') w = Some q"
      "rank p = rank q" "rank p \<noteq> - 1" for v w p q
  proof (cases "v = u")
    case True
    show ?thesis
    proof (rule ccontr)
      assume "v \<noteq> w"
      with True that have q: "map_of (players g) w = Some q" by (simp add: m)
      from True that have "rank q = next_rank g" using new by (simp add: m)
      with old_b [OF q] n0 show False by auto
    qed
  next
    case False
    with that have p: "map_of (players g) v = Some p" by (simp add: m)
    show ?thesis
    proof (cases "w = u")
      case True
      with that have "rank p = next_rank g" using new by (simp add: m)
      with old_b [OF p] n0 show ?thesis by auto
    next
      case False
      with that have "map_of (players g) w = Some q" by (simp add: m)
      with inv p that show ?thesis unfolding game_inv_def by blast
    qed
  qed
  have c: "\<exists>v p. map_of (players g') v = Some p \<and> rank p = r"
    if "1 \<le> r" "r < next_rank g'" for r
  proof (cases "r = next_rank g")
    case True
    have "map_of (players g') u = Some p'" by (simp add: m)
    with True new show ?thesis by blast
  next
    case False
    with that have "r < next_rank g" by (simp add: nr)
    with inv that obtain v p where vp: "map_of (players g) v = Some p" "rank p = r"
      unfolding game_inv_def by blast
    with old that have "v \<noteq> u" by auto
    with vp have "map_of (players g') v = Some p" by (simp add: m)
    with vp show ?thesis by blast
  qed
  have n: "1 \<le> next_rank g'" using n0 by (simp add: nr)
  show ?thesis
    unfolding game_inv_def
    using d n b i c by blast
qed

lemma Player_add_answer_fields [simp]:
  "rank (Player_add_answer p w h) = rank p"
  "left (Player_add_answer p w h) = left p"
  "mention (Player_add_answer p w h) = mention p"
  by (simp_all add: Player_add_answer_def Let_def)

lemma Player_found_rank_update [simp]: "Player_found (p\<lparr>rank := r\<rparr>) = Player_found p"
  by (simp add: Player_found_def)

lemma add_answer_unfold:
  assumes "add_answer L g u w = (res, g')"
  shows "(fst res = False \<and> g' = g) \<or>
    (\<exists>p. map_of (players g) u = Some p \<and> \<not> Player_over p \<and> res = (True, None)
       \<and> length (normalize L w) = length (hidden_word g)
       \<and> contains (game_dictionary g) (normalize L w)
       \<and> (if Player_found (Player_add_answer p (normalize L w) (hidden_word g))
          then g' = g\<lparr>players := AList.update u
                      ((Player_add_answer p (normalize L w) (hidden_word g))\<lparr>rank := next_rank g\<rparr>)
                      (players g),
                    next_rank := next_rank g + 1\<rparr>
          else g' = g\<lparr>players := AList.update u
                      (Player_add_answer p (normalize L w) (hidden_word g)) (players g)\<rparr>))"
proof (cases "map_of (players g) u")
  case None
  with assms show ?thesis by (auto simp add: add_answer_def)
next
  case (Some p)
  show ?thesis
  proof (cases "Player_over p")
    case True
    with Some assms show ?thesis by (auto simp add: add_answer_def)
  next
    case False
    show ?thesis
    proof (cases "length (normalize L w) = length (hidden_word g)
        \<and> contains (game_dictionary g) (normalize L w)")
      case True
      with Some False assms show ?thesis
        by (auto simp add: add_answer_def Let_def split: if_splits)
    next
      case no: False
      with Some False assms show ?thesis
        by (auto simp add: add_answer_def Let_def split: if_splits)
    qed
  qed
qed

lemma unranked_if_not_over:
  assumes "game_inv g" "map_of (players g) u = Some p" "\<not> Player_over p"
  shows "rank p = - 1"
  using assms unfolding game_inv_def Player_over_def by blast

lemma game_inv_add_answer:
  assumes inv: "game_inv g"
  shows "game_inv (snd (add_answer L g u w))"
proof -
  obtain res g' where r: "add_answer L g u w = (res, g')" by (cases "add_answer L g u w")
  from add_answer_unfold [OF r] show ?thesis
  proof
    assume "fst res = False \<and> g' = g"
    with inv r show ?thesis by simp
  next
    assume "\<exists>p. map_of (players g) u = Some p \<and> \<not> Player_over p \<and> res = (True, None)
       \<and> length (normalize L w) = length (hidden_word g)
       \<and> contains (game_dictionary g) (normalize L w)
       \<and> (if Player_found (Player_add_answer p (normalize L w) (hidden_word g))
          then g' = g\<lparr>players := AList.update u
                      ((Player_add_answer p (normalize L w) (hidden_word g))\<lparr>rank := next_rank g\<rparr>)
                      (players g),
                    next_rank := next_rank g + 1\<rparr>
          else g' = g\<lparr>players := AList.update u
                      (Player_add_answer p (normalize L w) (hidden_word g)) (players g)\<rparr>)"
    then obtain p where p: "map_of (players g) u = Some p" "\<not> Player_over p"
      and g': "if Player_found (Player_add_answer p (normalize L w) (hidden_word g))
          then g' = g\<lparr>players := AList.update u
                      ((Player_add_answer p (normalize L w) (hidden_word g))\<lparr>rank := next_rank g\<rparr>)
                      (players g),
                    next_rank := next_rank g + 1\<rparr>
          else g' = g\<lparr>players := AList.update u
                      (Player_add_answer p (normalize L w) (hidden_word g)) (players g)\<rparr>"
      by blast
    let ?p1 = "Player_add_answer p (normalize L w) (hidden_word g)"
    have rp: "rank p = - 1" using unranked_if_not_over [OF inv p] .
    have old: "\<forall>q. map_of (players g) u = Some q \<longrightarrow> rank q = - 1" using p rp by simp
    have nl: "\<not> left p" using p by (simp add: Player_over_def)
    have "game_inv g'"
    proof (cases "Player_found ?p1")
      case True
      with g' have e: "players g' = AList.update u (?p1\<lparr>rank := next_rank g\<rparr>) (players g)"
        "next_rank g' = next_rank g + 1" by simp_all
      show ?thesis
        by (rule game_inv_store_ranked [OF inv old _ _ _ e]) (simp_all add: True nl)
    next
      case False
      with g' have e: "players g' = AList.update u ?p1 (players g)"
        "next_rank g' = next_rank g" by simp_all
      show ?thesis
        by (rule game_inv_store_unranked [OF inv old _ e]) (simp add: rp)
    qed
    with r show ?thesis by simp
  qed
qed

lemma game_inv_add_player:
  assumes inv: "game_inv g"
  shows "game_inv (snd (add_player g u))"
proof (cases "map_of (players g) u")
  case None
  have old: "\<forall>q. map_of (players g) u = Some q \<longrightarrow> rank q = - 1" using None by simp
  have "game_inv (g\<lparr>players := AList.update u (Player_init u (hidden_word g)) (players g)\<rparr>)"
    by (rule game_inv_store_unranked [OF inv old]) (simp_all add: Player_init_def)
  with None show ?thesis by (simp add: add_player_def)
next
  case (Some p)
  with inv show ?thesis by (simp add: add_player_def)
qed

lemma game_inv_remove_player:
  assumes inv: "game_inv g"
  shows "game_inv (snd (remove_player g u))"
proof (cases "map_of (players g) u")
  case None
  with inv show ?thesis by (simp add: remove_player_def)
next
  case (Some p)
  show ?thesis
  proof (cases "Player_over p")
    case True
    with Some inv show ?thesis by (simp add: remove_player_def)
  next
    case False
    have rp: "rank p = - 1" using unranked_if_not_over [OF inv Some False] .
    have old: "\<forall>q. map_of (players g) u = Some q \<longrightarrow> rank q = - 1" using Some rp by simp
    have "game_inv (g\<lparr>players := AList.update u (p\<lparr>left := True\<rparr>) (players g)\<rparr>)"
      by (rule game_inv_store_unranked [OF inv old]) (simp_all add: rp)
    with Some False show ?thesis by (simp add: remove_player_def)
  qed
qed

lemma game_inv_step: "game_inv g \<Longrightarrow> game_inv (step L g ev)"
  by (cases ev) (simp_all add: game_inv_add_player game_inv_remove_player game_inv_add_answer)

lemma game_inv_run: "game_inv g \<Longrightarrow> game_inv (run L g evs)"
  by (induction evs arbitrary: g) (simp_all add: game_inv_step)

lemma game_inv_reachable: "game_inv (run L (Game_init d h users) evs)"
  by (rule game_inv_run [OF game_inv_init])

lemma run_append: "run L g (evs @ evs') = run L (run L g evs) evs'"
  by (induction evs arbitrary: g) simp_all

section \<open>Ranks handed out\<close>

lemma rank_change_same:
  "\<forall>(k, v) \<in> set ps. m k = Some v \<Longrightarrow> concat (map (rank_change m) ps) = []"
  by (induction ps) (auto simp add: rank_change_def)

lemma rank_change_update:
  "\<forall>(k, v) \<in> set ps. m k = Some v \<Longrightarrow>
   concat (map (rank_change m) (AList.update u p' ps)) = rank_change m (u, p')"
proof (induction ps)
  case Nil
  show ?case by simp
next
  case (Cons kv ps)
  obtain k v where kv: "kv = (k, v)" by (cases kv)
  show ?case
  proof (cases "k = u")
    case True
    have "concat (map (rank_change m) ps) = []"
      using Cons.prems by (intro rank_change_same) simp
    with True show ?thesis by (simp add: kv)
  next
    case False
    have "rank_change m (k, v) = []" using Cons.prems by (simp add: kv rank_change_def)
    moreover have "concat (map (rank_change m) (AList.update u p' ps)) = rank_change m (u, p')"
      using Cons.prems by (intro Cons.IH) simp
    ultimately show ?thesis using False by (simp add: kv)
  qed
qed

lemma ranks_set_update:
  assumes "distinct (map fst (players g))" "players g' = AList.update u p' (players g)"
  shows "ranks_set g g' = rank_change (map_of (players g)) (u, p')"
  unfolding ranks_set_def assms(2)
  using assms(1) by (intro rank_change_update) auto

lemma ranks_set_same:
  assumes "distinct (map fst (players g))" "players g' = players g"
  shows "ranks_set g g' = []"
  unfolding ranks_set_def assms(2)
  using assms(1) by (intro rank_change_same) auto

text \<open>What one operation does to the ranks and to the counter.\<close>

lemma step_ranks:
  assumes inv: "game_inv g"
  shows "(next_rank (step L g ev) = next_rank g \<and> ranks_set g (step L g ev) = [])
    \<or> (next_rank (step L g ev) = next_rank g + 1 \<and> ranks_set g (step L g ev) = [next_rank g])"
proof -
  have d: "distinct (map fst (players g))" using inv by (simp add: game_inv_def)
  have n: "1 \<le> next_rank g" using inv by (simp add: game_inv_def)
  show ?thesis
  proof (cases ev)
    case (Join u)
    show ?thesis
    proof (cases "map_of (players g) u")
      case None
      have "ranks_set g (g\<lparr>players := AList.update u (Player_init u (hidden_word g)) (players g)\<rparr>)
          = rank_change (map_of (players g)) (u, Player_init u (hidden_word g))"
        by (rule ranks_set_update [OF d]) simp
      with None Join show ?thesis by (simp add: add_player_def rank_change_def)
    next
      case (Some p)
      with Join show ?thesis by (simp add: add_player_def ranks_set_same [OF d])
    qed
  next
    case (Leave u)
    show ?thesis
    proof (cases "map_of (players g) u")
      case None
      with Leave show ?thesis by (simp add: remove_player_def ranks_set_same [OF d])
    next
      case (Some p)
      have "ranks_set g (g\<lparr>players := AList.update u (p\<lparr>left := True\<rparr>) (players g)\<rparr>)
          = rank_change (map_of (players g)) (u, p\<lparr>left := True\<rparr>)"
        by (rule ranks_set_update [OF d]) simp
      with Some Leave show ?thesis
        by (simp add: remove_player_def rank_change_def ranks_set_same [OF d])
    qed
  next
    case (Guess u w)
    obtain res g' where r: "add_answer L g u w = (res, g')" by (cases "add_answer L g u w")
    from add_answer_unfold [OF r] show ?thesis
    proof
      assume "fst res = False \<and> g' = g"
      with Guess r show ?thesis by (simp add: ranks_set_same [OF d])
    next
      assume "\<exists>p. map_of (players g) u = Some p \<and> \<not> Player_over p \<and> res = (True, None)
       \<and> length (normalize L w) = length (hidden_word g)
       \<and> contains (game_dictionary g) (normalize L w)
       \<and> (if Player_found (Player_add_answer p (normalize L w) (hidden_word g))
          then g' = g\<lparr>players := AList.update u
                      ((Player_add_answer p (normalize L w) (hidden_word g))\<lparr>rank := next_rank g\<rparr>)
                      (players g),
                    next_rank := next_rank g + 1\<rparr>
          else g' = g\<lparr>players := AList.update u
                      (Player_add_answer p (normalize L w) (hidden_word g)) (players g)\<rparr>)"
      then obtain p where p: "map_of (players g) u = Some p" "\<not> Player_over p"
        and g': "if Player_found (Player_add_answer p (normalize L w) (hidden_word g))
          then g' = g\<lparr>players := AList.update u
                      ((Player_add_answer p (normalize L w) (hidden_word g))\<lparr>rank := next_rank g\<rparr>)
                      (players g),
                    next_rank := next_rank g + 1\<rparr>
          else g' = g\<lparr>players := AList.update u
                      (Player_add_answer p (normalize L w) (hidden_word g)) (players g)\<rparr>"
        by blast
      let ?p1 = "Player_add_answer p (normalize L w) (hidden_word g)"
      have rp: "rank p = - 1" using unranked_if_not_over [OF inv p] .
      show ?thesis
      proof (cases "Player_found ?p1")
        case True
        with g' have e: "players g' = AList.update u (?p1\<lparr>rank := next_rank g\<rparr>) (players g)"
          "next_rank g' = next_rank g + 1" by simp_all
        have "ranks_set g g' = rank_change (map_of (players g)) (u, ?p1\<lparr>rank := next_rank g\<rparr>)"
          by (rule ranks_set_update [OF d e(1)])
        with p rp n e Guess r show ?thesis by (simp add: rank_change_def)
      next
        case False
        with g' have e: "players g' = AList.update u ?p1 (players g)"
          "next_rank g' = next_rank g" by simp_all
        have "ranks_set g g' = rank_change (map_of (players g)) (u, ?p1)"
          by (rule ranks_set_update [OF d e(1)])
        with p rp e Guess r show ?thesis by (simp add: rank_change_def)
      qed
    qed
  qed
qed

lemma next_rank_step_mono: "game_inv g \<Longrightarrow> next_rank g \<le> next_rank (step L g ev)"
  using step_ranks [of g L ev] by auto

lemma next_rank_run_mono: "game_inv g \<Longrightarrow> next_rank g \<le> next_rank (run L g evs)"
proof (induction evs arbitrary: g)
  case Nil
  show ?case by simp
next
  case (Cons ev evs)
  have "next_rank (step L g ev) \<le> next_rank (run L (step L g ev) evs)"
    by (rule Cons.IH [OF game_inv_step [OF Cons.prems]])
  with next_rank_step_mono [OF Cons.prems, of L ev] show ?case by simp
qed

lemma ranks_handed_out_run:
  "game_inv g \<Longrightarrow> ranks_handed_out L g evs = [next_rank g..next_rank (run L g evs) - 1]"
proof (induction evs arbitrary: g)
  case Nil
  show ?case by simp
next
  case (Cons ev evs)
  let ?g1 = "step L g ev"
  have inv1: "game_inv ?g1" by (rule game_inv_step [OF Cons.prems])
  have ih: "ranks_handed_out L ?g1 evs = [next_rank ?g1..next_rank (run L ?g1 evs) - 1]"
    by (rule Cons.IH [OF inv1])
  have mono: "next_rank ?g1 \<le> next_rank (run L ?g1 evs)" by (rule next_rank_run_mono [OF inv1])
  from step_ranks [OF Cons.prems, of L ev] show ?case
  proof
    assume "next_rank ?g1 = next_rank g \<and> ranks_set g ?g1 = []"
    with ih show ?thesis by simp
  next
    assume a: "next_rank ?g1 = next_rank g + 1 \<and> ranks_set g ?g1 = [next_rank g]"
    with mono have "[next_rank g..next_rank (run L ?g1 evs) - 1]
        = next_rank g # [next_rank g + 1..next_rank (run L ?g1 evs) - 1]"
      by (subst upto_rec1) simp_all
    with a ih show ?thesis by simp
  qed
qed

lemma next_rank_init: "next_rank (Game_init d h users) = 1"
  by (simp add: Game_init_def)

text \<open>
  C3. Let \<open>g\<close> be the game after any sequence of joins, leaves and guesses, and \<open>g'\<close> the
  game after one more call of \<open>add_answer\<close>. The ranks set along the whole sequence are
  1, 2, 3, ... up to the counter of \<open>g'\<close> less one, in this order. The call sets no rank and
  leaves the counter, or sets the one rank \<open>next_rank g\<close> and adds 1 to the counter. A rank
  other than -1 is never changed. A rank is changed only for the user who guesses, whose
  rank was -1, who had not found the word before the call and has found it after it, and
  the rank given is the counter before the call. No two users hold the same rank.
\<close>

theorem rank_assignment:
  assumes g: "g = run L (Game_init d h users) evs"
    and a: "add_answer L g user word = (res, g')"
  shows "ranks_handed_out L (Game_init d h users) (evs @ [Guess user word])
        = [1..next_rank g' - 1]
    \<and> (ranks_set g g' = [] \<and> next_rank g' = next_rank g
        \<or> ranks_set g g' = [next_rank g] \<and> next_rank g' = next_rank g + 1)
    \<and> (\<forall>v p. map_of (players g) v = Some p \<longrightarrow> rank p \<noteq> - 1 \<longrightarrow>
          rank_of g' v = Some (rank p))
    \<and> (\<forall>v p'. map_of (players g') v = Some p' \<longrightarrow> rank_of g v \<noteq> Some (rank p') \<longrightarrow>
          v = user \<and> fst res \<and> rank_of g v = Some (- 1)
          \<and> (\<exists>p. map_of (players g) v = Some p \<and> \<not> Player_found p)
          \<and> Player_found p' \<and> rank p' = next_rank g \<and> next_rank g' = next_rank g + 1)
    \<and> (\<forall>v w p q. map_of (players g') v = Some p \<longrightarrow> map_of (players g') w = Some q \<longrightarrow>
          v \<noteq> w \<longrightarrow> rank p \<noteq> - 1 \<longrightarrow> rank p \<noteq> rank q)"
proof -
  have inv: "game_inv g" unfolding g by (rule game_inv_reachable)
  have g'_eq: "g' = step L g (Guess user word)" using a by simp
  have g'_run: "g' = run L (Game_init d h users) (evs @ [Guess user word])"
    by (simp add: run_append g'_eq g)
  have inv': "game_inv g'" unfolding g'_run by (rule game_inv_reachable)
  have c1: "ranks_handed_out L (Game_init d h users) (evs @ [Guess user word])
        = [1..next_rank g' - 1]"
    using ranks_handed_out_run [OF game_inv_init, of L d h users "evs @ [Guess user word]"]
    by (simp add: g'_run [symmetric] next_rank_init)
  have c2: "ranks_set g g' = [] \<and> next_rank g' = next_rank g
        \<or> ranks_set g g' = [next_rank g] \<and> next_rank g' = next_rank g + 1"
    using step_ranks [OF inv, of L "Guess user word"] by (auto simp add: g'_eq)
  have c5: "rank p \<noteq> rank q"
    if "map_of (players g') v = Some p" "map_of (players g') w = Some q" "v \<noteq> w" "rank p \<noteq> - 1"
    for v w p q
    using inv' that unfolding game_inv_def by blast
  have c34: "(\<forall>v p. map_of (players g) v = Some p \<longrightarrow> rank p \<noteq> - 1 \<longrightarrow>
          rank_of g' v = Some (rank p))
    \<and> (\<forall>v p'. map_of (players g') v = Some p' \<longrightarrow> rank_of g v \<noteq> Some (rank p') \<longrightarrow>
          v = user \<and> fst res \<and> rank_of g v = Some (- 1)
          \<and> (\<exists>p. map_of (players g) v = Some p \<and> \<not> Player_found p)
          \<and> Player_found p' \<and> rank p' = next_rank g \<and> next_rank g' = next_rank g + 1)"
    using add_answer_unfold [OF a]
  proof
    assume "fst res = False \<and> g' = g"
    then show ?thesis by (auto simp add: rank_of_def)
  next
    assume "\<exists>p. map_of (players g) user = Some p \<and> \<not> Player_over p \<and> res = (True, None)
       \<and> length (normalize L word) = length (hidden_word g)
       \<and> contains (game_dictionary g) (normalize L word)
       \<and> (if Player_found (Player_add_answer p (normalize L word) (hidden_word g))
          then g' = g\<lparr>players := AList.update user
                      ((Player_add_answer p (normalize L word) (hidden_word g))\<lparr>rank := next_rank g\<rparr>)
                      (players g),
                    next_rank := next_rank g + 1\<rparr>
          else g' = g\<lparr>players := AList.update user
                      (Player_add_answer p (normalize L word) (hidden_word g)) (players g)\<rparr>)"
    then obtain p where p: "map_of (players g) user = Some p" "\<not> Player_over p"
      and res: "res = (True, None)"
      and g': "if Player_found (Player_add_answer p (normalize L word) (hidden_word g))
          then g' = g\<lparr>players := AList.update user
                      ((Player_add_answer p (normalize L word) (hidden_word g))\<lparr>rank := next_rank g\<rparr>)
                      (players g),
                    next_rank := next_rank g + 1\<rparr>
          else g' = g\<lparr>players := AList.update user
                      (Player_add_answer p (normalize L word) (hidden_word g)) (players g)\<rparr>"
      by blast
    let ?p1 = "Player_add_answer p (normalize L word) (hidden_word g)"
    have rp: "rank p = - 1" using unranked_if_not_over [OF inv p] .
    have nf: "\<not> Player_found p" using p by (simp add: Player_over_def)
    show ?thesis
    proof (cases "Player_found ?p1")
      case True
      with g' have m: "map_of (players g') = (map_of (players g))(user \<mapsto> ?p1\<lparr>rank := next_rank g\<rparr>)"
        and n: "next_rank g' = next_rank g + 1" by (simp_all add: update_conv')
      show ?thesis
        using p rp nf True res n by (auto simp add: m rank_of_def split: if_splits)
    next
      case False
      with g' have m: "map_of (players g') = (map_of (players g))(user \<mapsto> ?p1)"
        by (simp add: update_conv')
      show ?thesis
        using p rp by (auto simp add: m rank_of_def split: if_splits)
    qed
  qed
  from c1 c2 c34 c5 show ?thesis by blast
qed

lemma eval_next_rank:
  "next_rank (snd (add_answer translit_lib
      (run translit_lib game_cat [Guess 1 word_cat]) 2 word_cat)) = 3"
  by (simp add: game_cat_def Game_init_def add_answer_def Player_init_def Player_over_def
      Player_found_def normalize_def translit_lib_def ascii_isalpha_def ascii_lower_def
      word_cat_def dict_cat_def contains_def
      Player_add_answer_def Answer_init_def get_letters_found_def check_def Counter_def Let_def
      enumerate_eq_zip)

text \<open>Users 1 and 2 both guess "cat", one after the other: the ranks handed out are 1, 2.\<close>

theorem rank_assignment_witness:
  "ranks_handed_out translit_lib (Game_init dict_cat word_cat [1::nat, 2])
     ([Guess 1 word_cat] @ [Guess 2 word_cat]) = [1, 2]"
  using rank_assignment [OF refl surjective_pairing,
      of translit_lib dict_cat word_cat "[1::nat, 2]" "[Guess 1 word_cat]" 2 word_cat]
    eval_next_rank
  by (simp add: game_cat_def upto_rec1)

section \<open>Rejected guesses\<close>

text \<open>
  C4. A call of \<open>add_answer\<close> that is rejected returns the game unchanged. The checks
  are made in this order: an unknown user is rejected with no reason; then a player who is
  over, with no reason; then a normalized word that is too short; then one that is too
  long; then one that is not in the dictionary; a word that passes all of them is
  accepted. A word of the wrong length is rejected for its length whether or not it is in
  the dictionary.
\<close>

theorem add_answer_rejected:
  assumes "add_answer L g user word = ((ok, e), g')"
  shows "(\<not> ok \<longrightarrow> g' = g)
    \<and> (map_of (players g) user = None \<longrightarrow> \<not> ok \<and> e = None)
    \<and> (\<forall>p. map_of (players g) user = Some p \<longrightarrow>
          (Player_over p \<longrightarrow> \<not> ok \<and> e = None)
          \<and> (\<not> Player_over p \<longrightarrow>
               (length (normalize L word) < length (hidden_word g) \<longrightarrow>
                  \<not> ok \<and> e = Some TooShort)
               \<and> (length (normalize L word) > length (hidden_word g) \<longrightarrow>
                  \<not> ok \<and> e = Some TooLong)
               \<and> (length (normalize L word) = length (hidden_word g) \<longrightarrow>
                    \<not> contains (game_dictionary g) (normalize L word) \<longrightarrow>
                  \<not> ok \<and> e = Some NotInDictionary)
               \<and> (length (normalize L word) = length (hidden_word g) \<longrightarrow>
                    contains (game_dictionary g) (normalize L word) \<longrightarrow>
                  ok \<and> e = None)))"
proof (cases "map_of (players g) user")
  case None
  with assms show ?thesis by (simp add: add_answer_def)
next
  case (Some p)
  show ?thesis
  proof (cases "Player_over p")
    case True
    with Some assms show ?thesis by (simp add: add_answer_def)
  next
    case False
    with Some assms show ?thesis
      by (simp add: add_answer_def Let_def split: if_splits)
  qed
qed

lemma eval_TooShort:
  "add_answer translit_lib game_cat 1 [120, 121] = ((False, Some TooShort), game_cat)"
  by (simp add: game_cat_def Game_init_def add_answer_def Player_init_def Player_over_def
      Player_found_def normalize_def translit_lib_def ascii_isalpha_def ascii_lower_def
      word_cat_def Let_def enumerate_eq_zip)

text \<open>The guess "xy" is not in the dictionary, and it is rejected as too short.\<close>

theorem add_answer_rejected_witness:
  "[120, 121] \<notin> dictionary dict_cat
    \<and> add_answer translit_lib game_cat 1 [120, 121] = ((False, Some TooShort), game_cat)"
  using add_answer_rejected [OF eval_TooShort] eval_TooShort
  by (simp add: dict_cat_def word_cat_def word_cab_def)

section \<open>The sorted players\<close>

text \<open>
  C6. In the game after any sequence of operations, \<open>get_sorted_players\<close> returns all
  players, sorted by the key that is the rank of a player whose rank is positive and the
  counter \<open>next_rank\<close> for every other player; every player with a positive rank comes
  before every player without one, and the positive ranks are ascending.
\<close>

theorem sorted_players:
  assumes g: "g = run L (Game_init d h users) evs"
    and s: "s = get_sorted_players g"
  shows "mset s = mset (map snd (players g))
    \<and> sorted (map (\<lambda>player. if rank player > 0 then rank player else next_rank g) s)
    \<and> (\<forall>i j. i \<le> j \<longrightarrow> j < length s \<longrightarrow> 0 < rank (s ! j) \<longrightarrow>
          0 < rank (s ! i) \<and> rank (s ! i) \<le> rank (s ! j))"
proof -
  let ?key = "\<lambda>player. if rank player > 0 then rank player else next_rank g"
  have inv: "game_inv g" unfolding g by (rule game_inv_reachable)
  have m: "mset s = mset (map snd (players g))" by (simp add: s get_sorted_players_def)
  have srt: "sorted (map ?key s)" unfolding s get_sorted_players_def by (rule sorted_sort_key)
  have bound: "rank p < next_rank g" if "p \<in> set s" "0 < rank p" for p
  proof -
    from that m have "p \<in> set (map snd (players g))" by (metis set_mset_mset)
    then obtain u where "(u, p) \<in> set (players g)" by auto
    moreover have "distinct (map fst (players g))" using inv by (simp add: game_inv_def)
    ultimately have "map_of (players g) u = Some p" by simp
    with inv that show ?thesis unfolding game_inv_def by fastforce
  qed
  have ord: "0 < rank (s ! i) \<and> rank (s ! i) \<le> rank (s ! j)"
    if "i \<le> j" "j < length s" "0 < rank (s ! j)" for i j
  proof -
    have "map ?key s ! i \<le> map ?key s ! j"
      using srt that by (simp add: sorted_iff_nth_mono del: nth_map)
    with that have k: "?key (s ! i) \<le> rank (s ! j)" by simp
    have "rank (s ! j) < next_rank g" using bound that by simp
    with k show ?thesis by (auto split: if_splits)
  qed
  from m srt ord show ?thesis by blast
qed

lemma eval_sorted:
  "map (\<lambda>p. (mention p, rank p))
     (get_sorted_players (run translit_lib (Game_init dict_cat word_cat [1::nat, 2, 3])
        [Guess 2 word_cab, Guess 3 [67, 65, 84], Guess 2 word_cat, Leave 1, Join 4]))
   = [(3, 1), (2, 2), (1, - 1), (4, - 1)]"
  by (simp add: Game_init_def add_answer_def add_player_def remove_player_def Player_init_def
      Player_over_def Player_found_def normalize_def translit_lib_def ascii_isalpha_def
      ascii_lower_def word_cat_def word_cab_def dict_cat_def
      contains_def Player_add_answer_def Answer_init_def get_letters_found_def check_def
      Counter_def Let_def enumerate_eq_zip get_sorted_players_def)

text \<open>
  Users 1, 2 and 3 play: 3 finds the word first, then 2; 1 leaves and 4 joins. The players
  are listed as 3, 2, 1, 4.
\<close>

theorem sorted_players_witness:
  "mset (get_sorted_players (run translit_lib (Game_init dict_cat word_cat [1::nat, 2, 3])
        [Guess 2 word_cab, Guess 3 [67, 65, 84], Guess 2 word_cat, Leave 1, Join 4]))
   = mset (map snd (players (run translit_lib (Game_init dict_cat word_cat [1::nat, 2, 3])
        [Guess 2 word_cab, Guess 3 [67, 65, 84], Guess 2 word_cat, Leave 1, Join 4])))
   \<and> map (\<lambda>p. (mention p, rank p))
     (get_sorted_players (run translit_lib (Game_init dict_cat word_cat [1::nat, 2, 3])
        [Guess 2 word_cab, Guess 3 [67, 65, 84], Guess 2 word_cat, Leave 1, Join 4]))
   = [(3, 1), (2, 2), (1, - 1), (4, - 1)]"
  using sorted_players [OF refl refl, of translit_lib dict_cat word_cat "[1::nat, 2, 3]"
      "[Guess 2 word_cab, Guess 3 [67, 65, 84], Guess 2 word_cat, Leave 1, Join 4]"] eval_sorted
  by blast

section \<open>Leaving the game\<close>

lemma left_unranked_add_answer_rejects:
  "left_unranked g u \<Longrightarrow> add_answer L g u w = ((False, None), g)"
  by (auto simp add: left_unranked_def add_answer_def Player_over_def split: option.splits)

lemma left_unranked_other:
  assumes "left_unranked g u" "v \<noteq> u" "players g' = AList.update v p' (players g)"
  shows "left_unranked g' u"
  using assms by (simp add: left_unranked_def update_conv')

lemma left_unranked_step:
  assumes l: "left_unranked g u"
  shows "left_unranked (step L g ev) u"
proof (cases ev)
  case (Join v)
  show ?thesis
  proof (cases "v = u")
    case True
    with l Join show ?thesis
      by (auto simp add: left_unranked_def add_player_def split: option.splits)
  next
    case False
    show ?thesis
    proof (cases "map_of (players g) v")
      case None
      with Join left_unranked_other [OF l False, of "snd (add_player g v)"] show ?thesis
        by (simp add: add_player_def)
    next
      case (Some p)
      with Join l show ?thesis by (simp add: add_player_def)
    qed
  qed
next
  case (Leave v)
  show ?thesis
  proof (cases "v = u")
    case True
    with l Leave show ?thesis
      by (auto simp add: left_unranked_def remove_player_def Player_over_def split: option.splits)
  next
    case False
    show ?thesis
    proof (cases "map_of (players g) v")
      case None
      with Leave l show ?thesis by (simp add: remove_player_def)
    next
      case (Some p)
      have "left_unranked (g\<lparr>players := AList.update v (p\<lparr>left := True\<rparr>) (players g)\<rparr>) u"
        by (rule left_unranked_other [OF l False]) simp
      with Some Leave l show ?thesis by (simp add: remove_player_def)
    qed
  qed
next
  case (Guess v w)
  show ?thesis
  proof (cases "v = u")
    case True
    with l Guess show ?thesis by (simp add: left_unranked_add_answer_rejects)
  next
    case False
    obtain res g' where r: "add_answer L g v w = (res, g')" by (cases "add_answer L g v w")
    from add_answer_unfold [OF r] have "g' = g \<or> (\<exists>p'. players g' = AList.update v p' (players g))"
      by (auto split: if_splits)
    then have "left_unranked g' u"
      using l left_unranked_other [OF l False] by blast
    with Guess r show ?thesis by simp
  qed
qed

lemma left_unranked_run: "left_unranked g u \<Longrightarrow> left_unranked (run L g evs) u"
  by (induction evs arbitrary: g) (simp_all add: left_unranked_step)

text \<open>
  C7. In the game after any sequence of operations, \<open>remove_player\<close> changes neither the
  counter nor the rank of any user; it is accepted exactly when the user is in the game
  and not over, and a rejected call returns the game unchanged. After an accepted call,
  whatever operations follow, the user is in the game, has left and has rank -1, and every
  guess of this user is rejected and changes nothing.
\<close>

theorem remove_player_no_rank:
  assumes g: "g = run L (Game_init d h users) evs"
    and r: "remove_player g user = (ok, g1)"
  shows "next_rank g1 = next_rank g
    \<and> (\<forall>v. rank_of g1 v = rank_of g v)
    \<and> ok = (\<exists>p. map_of (players g) user = Some p \<and> \<not> Player_over p)
    \<and> (\<not> ok \<longrightarrow> g1 = g)
    \<and> (ok \<longrightarrow> (\<forall>evs'.
          (\<exists>p. map_of (players (run L g1 evs')) user = Some p \<and> left p \<and> rank p = - 1)
          \<and> (\<forall>w. add_answer L (run L g1 evs') user w = ((False, None), run L g1 evs'))))"
proof -
  have inv: "game_inv g" unfolding g by (rule game_inv_reachable)
  show ?thesis
  proof (cases "map_of (players g) user")
    case None
    with r show ?thesis by (auto simp add: remove_player_def)
  next
    case (Some p)
    show ?thesis
    proof (cases "Player_over p")
      case True
      with Some r show ?thesis by (auto simp add: remove_player_def)
    next
      case False
      have rp: "rank p = - 1" using unranked_if_not_over [OF inv Some False] .
      from Some False r have ok: "ok"
        and g1: "g1 = g\<lparr>players := AList.update user (p\<lparr>left := True\<rparr>) (players g)\<rparr>"
        by (auto simp add: remove_player_def)
      have n: "next_rank g1 = next_rank g" by (simp add: g1)
      have ranks: "rank_of g1 v = rank_of g v" for v
        using Some by (simp add: g1 rank_of_def update_conv')
      have l: "left_unranked g1 user"
        by (simp add: g1 left_unranked_def update_conv' rp)
      have later: "(\<exists>p. map_of (players (run L g1 evs')) user = Some p \<and> left p \<and> rank p = - 1)
          \<and> (\<forall>w. add_answer L (run L g1 evs') user w = ((False, None), run L g1 evs'))" for evs'
      proof -
        have l': "left_unranked (run L g1 evs') user" by (rule left_unranked_run [OF l])
        then have "\<exists>p. map_of (players (run L g1 evs')) user = Some p \<and> left p \<and> rank p = - 1"
          by (auto simp add: left_unranked_def split: option.splits)
        with left_unranked_add_answer_rejects [OF l'] show ?thesis by blast
      qed
      from Some False ok n ranks later show ?thesis by blast
    qed
  qed
qed

lemma eval_remove:
  "fst (remove_player game_cat 1) = True"
  by (simp add: game_cat_def Game_init_def remove_player_def Player_init_def Player_over_def
      Player_found_def word_cat_def enumerate_eq_zip)

text \<open>
  User 1 leaves the game of users 1 and 2; 1 then guesses "cat" and tries to join again,
  and 2 finds the word: the rank of 1 is -1, and a guess of 1 is rejected.
\<close>

theorem remove_player_no_rank_witness:
  "rank_of (run translit_lib (snd (remove_player game_cat 1)) [Guess 1 word_cat, Join 1, Guess 2 word_cat]) 1
     = Some (- 1)
   \<and> fst (fst (add_answer translit_lib
        (run translit_lib (snd (remove_player game_cat 1)) [Guess 2 word_cat]) 1 word_cat)) = False"
proof -
  let ?g1 = "snd (remove_player game_cat 1)"
  have "\<forall>evs'.
      (\<exists>p. map_of (players (run translit_lib ?g1 evs')) 1 = Some p \<and> left p \<and> rank p = - 1)
      \<and> (\<forall>w. add_answer translit_lib (run translit_lib ?g1 evs') 1 w
            = ((False, None), run translit_lib ?g1 evs'))"
    using remove_player_no_rank [OF refl surjective_pairing,
        of translit_lib dict_cat word_cat "[1::nat, 2]" "[]" 1] eval_remove
    by (simp add: game_cat_def)
  then have "\<exists>p. map_of (players (run translit_lib ?g1 [Guess 1 word_cat, Join 1, Guess 2 word_cat])) 1 = Some p
        \<and> left p \<and> rank p = - 1"
    and "add_answer translit_lib (run translit_lib ?g1 [Guess 2 word_cat]) 1 word_cat
        = ((False, None), run translit_lib ?g1 [Guess 2 word_cat])"
    by blast+
  then show ?thesis by (auto simp add: rank_of_def)
qed

section \<open>Joining the game\<close>

lemma update_fresh: "map_of ps u = None \<Longrightarrow> AList.update u v ps = ps @ [(u, v)]"
  by (induction ps) (auto split: if_splits)

lemma letters_init_tail:
  "0 < n \<Longrightarrow> map (\<lambda>(i, x). if i = 0 then Some x else None) (enumerate n xs)
     = replicate (length xs) None"
  by (induction xs arbitrary: n) simp_all

lemma Player_found_init: "Player_found (Player_init u h) = (length h \<le> 1)"
proof (cases h)
  case Nil
  then show ?thesis by (simp add: Player_found_def Player_init_def)
next
  case (Cons x xs)
  then show ?thesis
    by (cases xs) (simp_all add: Player_found_def Player_init_def letters_init_tail)
qed

lemma left_init: "left (Player_init u h) = False"
  by (simp add: Player_init_def)

text \<open>
  C10. For every game, \<open>add_player\<close> is accepted exactly when the user is not in the game;
  a rejected call returns the game unchanged; an accepted call appends a fresh player for
  the user and changes nothing else. This holds of a game that is over too, and the game
  is then over after the call only when the hidden word has at most one letter (a fresh
  player has then nothing left to find).
\<close>

theorem add_player_fresh:
  assumes "add_player g user = (ok, g')"
  shows "ok = (map_of (players g) user = None)
    \<and> (\<not> ok \<longrightarrow> g' = g)
    \<and> (ok \<longrightarrow> g' = g\<lparr>players := players g @ [(user, Player_init user (hidden_word g))]\<rparr>
          \<and> map_of (players g') user = Some (Player_init user (hidden_word g))
          \<and> (Game_over g \<longrightarrow> Game_over g' = (length (hidden_word g) \<le> 1)))"
proof (cases "map_of (players g) user")
  case None
  with assms have ok: "ok"
    and g': "g' = g\<lparr>players := players g @ [(user, Player_init user (hidden_word g))]\<rparr>"
    by (auto simp add: add_player_def update_fresh)
  have m: "map_of (players g') user = Some (Player_init user (hidden_word g))"
    using None by (simp add: g' map_add_def)
  have o: "Game_over g \<Longrightarrow> Game_over g' = (length (hidden_word g) \<le> 1)"
    by (simp add: g' Game_over_def Player_over_def Player_found_init left_init)
  from None ok g' m o show ?thesis by blast
next
  case (Some p)
  with assms show ?thesis by (auto simp add: add_player_def)
qed

lemma eval_over:
  "Game_over (run translit_lib game_cat [Leave 1, Leave 2])
   \<and> fst (add_player (run translit_lib game_cat [Leave 1, Leave 2]) 3)
   \<and> length (hidden_word (run translit_lib game_cat [Leave 1, Leave 2])) = 3"
  by (simp add: game_cat_def Game_init_def add_player_def remove_player_def Player_init_def
      Player_over_def Player_found_def word_cat_def Game_over_def enumerate_eq_zip)

text \<open>
  Users 1 and 2 have left and the game is over; user 3 joins, and the game is not over.
\<close>

theorem add_player_fresh_witness:
  "Game_over (run translit_lib game_cat [Leave 1, Leave 2])
   \<and> fst (add_player (run translit_lib game_cat [Leave 1, Leave 2]) 3)
   \<and> \<not> Game_over (snd (add_player (run translit_lib game_cat [Leave 1, Leave 2]) 3))"
proof -
  let ?g = "run translit_lib game_cat [Leave 1, Leave 2]"
  have "Game_over (snd (add_player ?g 3)) = (length (hidden_word ?g) \<le> 1)"
    using add_player_fresh [OF surjective_pairing, of ?g 3] eval_over by blast
  with eval_over show ?thesis by simp
qed

section \<open>Saving and loading the statistics\<close>











lemma int_of_str_stripped:
  "int_of_str s = (case strip s of [] \<Rightarrow> Inl ValueError
      | c # cs \<Rightarrow>
          if c = 45 then map_sum id (\<lambda>n. - int n) (nat_of_digits cs)
          else if c = 43 then map_sum id int (nat_of_digits cs)
          else map_sum id int (nat_of_digits (c # cs)))"
  by (simp add: int_of_str_def)















end
